theory Spec2Isabelle
  imports Main "HOL-Library.Multiset" "HOL-Library.AList"
begin

section \<open>JavaScript strings\<close>

text \<open>
  A JavaScript string is a sequence of UTF-16 code units.  A code unit is modelled by its
  number; nothing in the functions below does arithmetic on code units, so the bound
  \<open>< 65536\<close> plays no role.  \<open>js\<close> reads an ASCII literal as such a sequence.
\<close>

type_synonym code_unit = nat
type_synonym js_string = "code_unit list"

definition js :: "string \<Rightarrow> js_string" where
  "js s = map of_char s"

text \<open>
  The characters matched by \<^verbatim>\<open>\s\<close> in a regular expression and removed by
  \<^verbatim>\<open>trimEnd\<close>: the WhiteSpace and LineTerminator productions of ECMAScript
  (TAB, LF, VT, FF, CR, SP, NBSP, U+1680, U+2000..U+200A, U+2028, U+2029, U+202F,
  U+205F, U+3000, U+FEFF).
\<close>

definition is_space :: "code_unit \<Rightarrow> bool" where
  "is_space c \<longleftrightarrow>
     c = 9 \<or> c = 10 \<or> c = 11 \<or> c = 12 \<or> c = 13 \<or> c = 32 \<or> c = 160 \<or> c = 5760 \<or>
     (8192 \<le> c \<and> c \<le> 8202) \<or> c = 8232 \<or> c = 8233 \<or> c = 8239 \<or> c = 8287 \<or>
     c = 12288 \<or> c = 65279"

definition trimStart :: "js_string \<Rightarrow> js_string" where
  "trimStart s = dropWhile is_space s"

definition trimEnd :: "js_string \<Rightarrow> js_string" where
  "trimEnd s = rev (dropWhile is_space (rev s))"

text \<open>
  \<^verbatim>\<open>s.trim()\<close>, and equally \<^verbatim>\<open>line.replace(/^\s+|\s+$/g, "")\<close>: the first alternative
  removes the run of white space at the start, the second the run at the end.
\<close>

definition trim :: "js_string \<Rightarrow> js_string" where
  "trim s = trimEnd (trimStart s)"

text \<open>
  \<^verbatim>\<open>s.split(sep)\<close> for a separator of one code unit.  The result is never empty:
  \<^verbatim>\<open>"".split("\n")\<close> is \<^verbatim>\<open>[""]\<close>.
\<close>

fun split_on :: "code_unit \<Rightarrow> js_string \<Rightarrow> js_string list" where
  "split_on sep [] = [[]]"
| "split_on sep (c # cs) =
     (if c = sep then [] # split_on sep cs
      else (case split_on sep cs of
              [] \<Rightarrow> [[c]]
            | l # ls \<Rightarrow> (c # l) # ls))"

text \<open>
  Matching with the \<^verbatim>\<open>i\<close> flag (and without \<^verbatim>\<open>u\<close>) compares the canonical forms of
  the code units.  The canonical form of an ASCII letter is its upper case; a code unit
  from 128 on never has an ASCII canonical form, so against an ASCII pattern only the
  ASCII letters fold.
\<close>

definition canonicalize :: "code_unit \<Rightarrow> code_unit" where
  "canonicalize ch = (if 97 \<le> ch \<and> ch \<le> 122 then ch - 32 else ch)"

definition matches_ci :: "js_string \<Rightarrow> js_string \<Rightarrow> bool" where
  "matches_ci pat line \<longleftrightarrow> map canonicalize line = map canonicalize pat"

text \<open>\<^verbatim>\<open>/^(Args?):$/i\<close>, \<^verbatim>\<open>/^Returns?:$/i\<close> and \<^verbatim>\<open>/^Raises?:$/i\<close>, tested on a whole line.\<close>

definition re_args :: "js_string \<Rightarrow> bool" where
  "re_args line \<longleftrightarrow> matches_ci (js ''Arg:'') line \<or> matches_ci (js ''Args:'') line"

definition re_returns :: "js_string \<Rightarrow> bool" where
  "re_returns line \<longleftrightarrow> matches_ci (js ''Return:'') line \<or> matches_ci (js ''Returns:'') line"

definition re_raises :: "js_string \<Rightarrow> bool" where
  "re_raises line \<longleftrightarrow> matches_ci (js ''Raise:'') line \<or> matches_ci (js ''Raises:'') line"

definition is_header :: "js_string \<Rightarrow> bool" where
  "is_header line \<longleftrightarrow> re_args line \<or> re_returns line \<or> re_raises line"

section \<open>The docstring parser (components/python.tsx)\<close>

datatype section_key = Description | Arguments | Returns | Raises

record sections =
  description :: js_string
  arguments :: "js_string list"
  returns :: js_string
  raises :: js_string

definition empty_sections :: sections where
  "empty_sections = \<lparr>description = [], arguments = [], returns = [], raises = []\<rparr>"

text \<open>
  One round of the loop over the lines: the state is the current section and the record
  built so far.  \<^verbatim>\<open>line ? line + "\n" : "\n"\<close> tests the line for being non-empty.
\<close>

fun scan_line :: "section_key \<times> sections \<Rightarrow> js_string \<Rightarrow> section_key \<times> sections" where
  "scan_line (currentSection, secs) line =
     (if re_args line then (Arguments, secs)
      else if re_returns line then (Returns, secs)
      else if re_raises line then (Raises, secs)
      else (case currentSection of
              Arguments \<Rightarrow>
                (currentSection,
                 if line \<noteq> [] then secs\<lparr>arguments := arguments secs @ [line]\<rparr> else secs)
            | Description \<Rightarrow>
                (currentSection,
                 secs\<lparr>description := description secs @ (if line \<noteq> [] then line @ [10] else [10])\<rparr>)
            | Returns \<Rightarrow>
                (currentSection,
                 secs\<lparr>returns := returns secs @ (if line \<noteq> [] then line @ [10] else [10])\<rparr>)
            | Raises \<Rightarrow>
                (currentSection,
                 secs\<lparr>raises := raises secs @ (if line \<noteq> [] then line @ [10] else [10])\<rparr>)))"

definition doc_lines :: "js_string \<Rightarrow> js_string list" where
  "doc_lines docstring = map trim (split_on 10 docstring)"

definition scan :: "js_string \<Rightarrow> section_key \<times> sections" where
  "scan docstring = foldl scan_line (Description, empty_sections) (doc_lines docstring)"

definition parseDocstring :: "js_string \<Rightarrow> sections" where
  "parseDocstring docstring =
     (let secs = snd (scan docstring)
      in secs\<lparr>description := trimEnd (description secs),
              returns := trimEnd (returns secs),
              raises := trimEnd (raises secs)\<rparr>)"

section \<open>The display of a parsed docstring (PyFunction)\<close>

text \<open>
  \<^verbatim>\<open>docString ? parseDocstring(docString) : null\<close>.  An absent docstring is \<open>None\<close>; it and
  the empty string are the falsy inputs, for which the parser is not called.
\<close>

definition doc_of :: "js_string option \<Rightarrow> sections option" where
  "doc_of docString =
     (case docString of
        None \<Rightarrow> None
      | Some d \<Rightarrow> if d \<noteq> [] then Some (parseDocstring d) else None)"

text \<open>Reading an array element: \<open>None\<close> is \<^verbatim>\<open>undefined\<close>, the value past the end.\<close>

fun element :: "'a list \<Rightarrow> nat \<Rightarrow> 'a option" where
  "element [] i = None"
| "element (x # xs) 0 = Some x"
| "element (x # xs) (Suc i) = element xs i"

text \<open>
  \<^verbatim>\<open>const [name, description] = arg.split(":").map((s) => s.trim())\<close>: the line is cut at
  every colon (code unit 58) and the first two pieces are bound.
\<close>

definition name_description :: "js_string \<Rightarrow> js_string option \<times> js_string option" where
  "name_description arg =
     (let parts = map trim (split_on 58 arg)
      in (element parts 0, element parts 1))"

text \<open>
  What the component shows: either the fallback paragraph, or the description lines, and
  the arguments, returns and raises blocks, each present only when its test
  (\<^verbatim>\<open>doc.arguments.length > 0\<close>, \<^verbatim>\<open>doc.returns\<close>, \<^verbatim>\<open>doc.raises\<close>) holds.  The markup of
  inline code inside a description line is left out.
\<close>

datatype view =
  Fallback js_string
| Documentation
    "js_string list"
    "(js_string option \<times> js_string option) list option"
    "js_string option"
    "(js_string option \<times> js_string option) list option"

definition PyFunction :: "js_string option \<Rightarrow> view" where
  "PyFunction docString =
     (case doc_of docString of
        None \<Rightarrow> Fallback (js ''No documentation available.'')
      | Some doc \<Rightarrow>
          Documentation
            (split_on 10 (description doc))
            (if length (arguments doc) > 0 then Some (map name_description (arguments doc))
             else None)
            (if returns doc \<noteq> [] then Some (returns doc) else None)
            (if raises doc \<noteq> [] then Some (map name_description (split_on 10 (raises doc)))
             else None))"

section \<open>Grouping the error pages by category (app/(home)/errors/page.tsx)\<close>

text \<open>
  A page carries its path segments; everything else it carries is passed through.
\<close>

record 'a page =
  slugs :: "js_string list"
  data :: 'a

text \<open>
  The accumulator is the object literal \<^verbatim>\<open>{}\<close>: its own properties, kept in the order
  of their creation, each holding an array of pages; behind them the properties every
  plain object inherits from \<^verbatim>\<open>Object.prototype\<close>, which are functions, or for
  \<^verbatim>\<open>__proto__\<close> the prototype object itself.  The list records the order of creation
  only: the enumeration of an object puts keys that are array indices (such as
  \<^verbatim>\<open>404\<close>) first, in ascending order, and that order is not modelled.  Nothing below
  speaks of the order of the keys.
\<close>

type_synonym 'a groups = "(js_string \<times> 'a page list) list"

definition Object_prototype_keys :: "js_string list" where
  "Object_prototype_keys =
     [js ''constructor'', js ''__defineGetter__'', js ''__defineSetter__'',
      js ''hasOwnProperty'', js ''__lookupGetter__'', js ''__lookupSetter__'',
      js ''isPrototypeOf'', js ''propertyIsEnumerable'', js ''toString'', js ''valueOf'',
      js ''__proto__'', js ''toLocaleString'']"

datatype 'a property = Undefined | PageArray "'a page list" | Inherited

datatype js_error = TypeError

text \<open>\<^verbatim>\<open>acc[category]\<close>: an own property first, then the prototype, else \<^verbatim>\<open>undefined\<close>.\<close>

definition get_property :: "'a groups \<Rightarrow> js_string \<Rightarrow> 'a property" where
  "get_property acc k =
     (case map_of acc k of
        Some ps \<Rightarrow> PageArray ps
      | None \<Rightarrow> if k \<in> set Object_prototype_keys then Inherited else Undefined)"

fun truthy :: "'a property \<Rightarrow> bool" where
  "truthy Undefined = False"
| "truthy (PageArray ps) = True"
| "truthy Inherited = True"

text \<open>\<^verbatim>\<open>slug[0] || "uncategorized"\<close>: a missing first segment and an empty one are falsy.\<close>

definition category_of :: "'a page \<Rightarrow> js_string" where
  "category_of post =
     (case element (slugs post) 0 of
        None \<Rightarrow> js ''uncategorized''
      | Some s \<Rightarrow> if s \<noteq> [] then s else js ''uncategorized'')"

text \<open>
  The callback of \<^verbatim>\<open>reduce\<close>.  \<^verbatim>\<open>acc[category].push(post)\<close> appends to an array; on the
  inherited values, which have no \<^verbatim>\<open>push\<close>, the call raises a TypeError.
\<close>

definition reducer :: "'a groups \<Rightarrow> 'a page \<Rightarrow> js_error + 'a groups" where
  "reducer acc post =
     (let category = category_of post;
          acc1 = (if \<not> truthy (get_property acc category)
                  then AList.update category [] acc else acc)
      in case get_property acc1 category of
           PageArray ps \<Rightarrow> Inr (AList.update category (ps @ [post]) acc1)
         | Undefined \<Rightarrow> Inl TypeError
         | Inherited \<Rightarrow> Inl TypeError)"

fun reduce :: "'a groups \<Rightarrow> 'a page list \<Rightarrow> js_error + 'a groups" where
  "reduce acc [] = Inr acc"
| "reduce acc (post # posts) =
     (case reducer acc post of
        Inl e \<Rightarrow> Inl e
      | Inr acc' \<Rightarrow> reduce acc' posts)"

definition postsByCategory :: "'a page list \<Rightarrow> js_error + 'a groups" where
  "postsByCategory posts = reduce [] posts"

section \<open>Notions used to state the properties\<close>

text \<open>The lower-case form of an ASCII letter: two lines that differ only in letter case
  have the same image.\<close>

definition ascii_lower :: "code_unit \<Rightarrow> code_unit" where
  "ascii_lower c = (if 65 \<le> c \<and> c \<le> 90 then c + 32 else c)"

text \<open>Lines put together again with a line feed between them, as \<^verbatim>\<open>join("\n")\<close> does.\<close>

fun join_lines :: "js_string list \<Rightarrow> js_string" where
  "join_lines [] = []"
| "join_lines [l] = l"
| "join_lines (l # m # ls) = l @ [10] @ join_lines (m # ls)"

text \<open>The pages held under a key of the accumulator; none when the key is not there.\<close>

definition group_of :: "'a groups \<Rightarrow> js_string \<Rightarrow> 'a page list" where
  "group_of acc k = (case map_of acc k of None \<Rightarrow> [] | Some ps \<Rightarrow> ps)"

section \<open>Evaluation on concrete docstrings\<close>

lemmas eval_defs = parseDocstring_def scan_def doc_lines_def js_def trim_def trimStart_def
      trimEnd_def is_space_def empty_sections_def re_args_def re_returns_def re_raises_def
      matches_ci_def canonicalize_def is_header_def

text \<open>
  C1. The docstring \<^verbatim>\<open>"Does X.\n\nArgs:\n    a: first\n    b: second\nReturns:\n    a value\n"\<close>
  parses to the description \<^verbatim>\<open>"Does X."\<close>, the arguments \<^verbatim>\<open>"a: first"\<close> and
  \<^verbatim>\<open>"b: second"\<close>, the returns text \<^verbatim>\<open>"a value"\<close> and an empty raises text.
\<close>

theorem parse_example:
  "parseDocstring
     (js ''Does X.\<newline>\<newline>Args:\<newline>    a: first\<newline>    b: second\<newline>Returns:\<newline>    a value\<newline>'')
   = \<lparr>description = js ''Does X.'',
      arguments = [js ''a: first'', js ''b: second''],
      returns = js ''a value'',
      raises = []\<rparr>"
  by (simp add: eval_defs)

section \<open>Facts about trimming, splitting and header tests\<close>



lemma trimEnd_snoc_space: "is_space c \<Longrightarrow> trimEnd (s @ [c]) = trimEnd s"
  by (simp add: trimEnd_def)

lemma canonicalize_eq_iff:
  "canonicalize c = canonicalize d \<longleftrightarrow> ascii_lower c = ascii_lower d"
  unfolding canonicalize_def ascii_lower_def by (auto split: if_splits) 

lemma matches_ci_lower:
  "matches_ci pat line \<longleftrightarrow> map ascii_lower line = map ascii_lower pat"
proof -
  have "map canonicalize line = map canonicalize pat \<longleftrightarrow>
        list_all2 (\<lambda>x y. canonicalize x = canonicalize y) line pat"
    by (simp add: list_all2_eq list_all2_map1 list_all2_map2)
  also have "\<dots> \<longleftrightarrow> list_all2 (\<lambda>x y. ascii_lower x = ascii_lower y) line pat"
    by (simp add: canonicalize_eq_iff)
  also have "\<dots> \<longleftrightarrow> map ascii_lower line = map ascii_lower pat"
    by (simp add: list_all2_eq list_all2_map1 list_all2_map2)
  finally show ?thesis by (simp add: matches_ci_def)
qed

lemma re_args_lower:
  "re_args line \<longleftrightarrow> map ascii_lower line = js ''arg:'' \<or> map ascii_lower line = js ''args:''"
  by (simp add: re_args_def matches_ci_lower js_def ascii_lower_def)

lemma re_returns_lower:
  "re_returns line \<longleftrightarrow>
     map ascii_lower line = js ''return:'' \<or> map ascii_lower line = js ''returns:''"
  by (simp add: re_returns_def matches_ci_lower js_def ascii_lower_def)

lemma re_raises_lower:
  "re_raises line \<longleftrightarrow>
     map ascii_lower line = js ''raise:'' \<or> map ascii_lower line = js ''raises:''"
  by (simp add: re_raises_def matches_ci_lower js_def ascii_lower_def)

lemma headers_exclusive:
  "\<not> (re_args l \<and> re_returns l)" "\<not> (re_args l \<and> re_raises l)" "\<not> (re_returns l \<and> re_raises l)"
  by (auto simp: re_args_lower re_returns_lower re_raises_lower js_def)


lemma scan_line_plain:
  "\<not> is_header l \<Longrightarrow>
   scan_line (cur, secs) l =
     (cur, case cur of
             Arguments \<Rightarrow> if l \<noteq> [] then secs\<lparr>arguments := arguments secs @ [l]\<rparr> else secs
           | Description \<Rightarrow> secs\<lparr>description := description secs @ l @ [10]\<rparr>
           | Returns \<Rightarrow> secs\<lparr>returns := returns secs @ l @ [10]\<rparr>
           | Raises \<Rightarrow> secs\<lparr>raises := raises secs @ l @ [10]\<rparr>)"
  by (cases cur) (simp_all add: is_header_def)

lemma scan_description:
  "\<forall>l\<in>set ls. \<not> is_header l \<Longrightarrow>
   foldl scan_line (Description, secs) ls =
     (Description, secs\<lparr>description := description secs @ concat (map (\<lambda>l. l @ [10]) ls)\<rparr>)"
proof (induction ls arbitrary: secs)
  case Nil
  show ?case by simp
next
  case (Cons l ls)
  then have "\<not> is_header l" and rest: "\<forall>l\<in>set ls. \<not> is_header l"
    by simp_all
  then show ?case
    by (simp add: scan_line_plain Cons.IH [OF rest] del: scan_line.simps)
qed

lemma scan_arguments_body:
  "\<forall>l\<in>set ls. \<not> is_header l \<Longrightarrow>
   foldl scan_line (Arguments, secs) ls =
     (Arguments, secs\<lparr>arguments := arguments secs @ filter (\<lambda>l. l \<noteq> []) ls\<rparr>)"
proof (induction ls arbitrary: secs)
  case Nil
  show ?case by simp
next
  case (Cons l ls)
  then have "\<not> is_header l" and rest: "\<forall>l\<in>set ls. \<not> is_header l"
    by simp_all
  then show ?case
    by (simp add: scan_line_plain Cons.IH [OF rest] del: scan_line.simps)
qed

lemma scan_line_outside:
  "cur \<noteq> Arguments \<Longrightarrow> \<not> re_args l \<Longrightarrow>
   fst (scan_line (cur, secs) l) \<noteq> Arguments \<and>
   arguments (snd (scan_line (cur, secs) l)) = arguments secs"
  by (cases cur) simp_all

lemma scan_outside_arguments:
  "cur \<noteq> Arguments \<Longrightarrow> \<forall>l\<in>set ls. \<not> re_args l \<Longrightarrow>
   fst (foldl scan_line (cur, secs) ls) \<noteq> Arguments \<and>
   arguments (snd (foldl scan_line (cur, secs) ls)) = arguments secs"
proof (induction ls arbitrary: cur secs)
  case Nil
  then show ?case by simp
next
  case (Cons l ls)
  obtain cur' secs' where step: "scan_line (cur, secs) l = (cur', secs')"
    by (cases "scan_line (cur, secs) l")
  from Cons.prems have "\<not> re_args l" and rest: "\<forall>l\<in>set ls. \<not> re_args l"
    by simp_all
  with scan_line_outside [OF Cons.prems(1), of l secs] step
  have "cur' \<noteq> Arguments" and "arguments secs' = arguments secs"
    by simp_all
  with Cons.IH [OF _ rest, of cur' secs'] step show ?case
    by simp
qed

lemma scan_after_arguments:
  assumes "rest = [] \<or> is_header (hd rest)" and "\<forall>l\<in>set rest. \<not> re_args l"
  shows "arguments (snd (foldl scan_line (Arguments, secs) rest)) = arguments secs"
proof (cases rest)
  case Nil
  then show ?thesis by simp
next
  case (Cons r rs)
  with assms have "is_header r" "\<not> re_args r" and tail: "\<forall>l\<in>set rs. \<not> re_args l"
    by simp_all
  then have "scan_line (Arguments, secs) r = (if re_returns r then Returns else Raises, secs)"
    by (auto simp: is_header_def)
  then obtain cur where "scan_line (Arguments, secs) r = (cur, secs)" and "cur \<noteq> Arguments"
    by (cases "re_returns r") simp_all
  with scan_outside_arguments [OF _ tail, of cur secs] Cons show ?thesis
    by simp
qed

lemma split_on_not_Nil: "split_on sep s \<noteq> []"
  by (induction s) (auto split: list.splits)

lemma join_split: "join_lines (split_on 10 s) = s"
proof (induction s)
  case Nil
  show ?case by simp
next
  case (Cons c cs)
  obtain l ls where ls: "split_on 10 cs = l # ls"
    using split_on_not_Nil [of 10 cs] by (cases "split_on 10 cs") auto
  with Cons show ?case
    by (cases ls) auto
qed

lemma concat_terminated:
  "ls \<noteq> [] \<Longrightarrow> concat (map (\<lambda>l. l @ [10]) ls) = join_lines ls @ [10]"
  by (induction ls rule: join_lines.induct) simp_all

lemma is_space_newline: "is_space 10"
  by (simp add: is_space_def)



text \<open>The effect of one more line at the end of a docstring on the scan.\<close>

lemma split_on_single: "sep \<notin> set raw \<Longrightarrow> split_on sep raw = [raw]"
  by (induction raw) auto

lemma split_on_snoc_line:
  "sep \<notin> set raw \<Longrightarrow> split_on sep (doc @ sep # raw) = split_on sep doc @ [raw]"
proof (induction doc)
  case Nil
  then show ?case by (simp add: split_on_single)
next
  case (Cons c doc)
  obtain l ls where "split_on sep doc = l # ls"
    using split_on_not_Nil [of sep doc] by (cases "split_on sep doc") auto
  with Cons show ?case by simp
qed

lemma scan_single_line:
  "10 \<notin> set raw \<Longrightarrow> scan raw = scan_line (Description, empty_sections) (trim raw)"
  by (simp add: scan_def doc_lines_def split_on_single)

lemma scan_snoc_line:
  "10 \<notin> set raw \<Longrightarrow> scan (doc @ 10 # raw) = scan_line (scan doc) (trim raw)"
  by (simp add: scan_def doc_lines_def split_on_snoc_line)

lemma parseDocstring_cong: "snd (scan s) = snd (scan t) \<Longrightarrow> parseDocstring s = parseDocstring t"
  by (simp add: parseDocstring_def)

lemma is_space_lower: "is_space c \<Longrightarrow> ascii_lower c = c"
  by (auto simp: is_space_def ascii_lower_def)

lemma not_space_lower: "\<not> is_space (ascii_lower c) \<Longrightarrow> \<not> is_space c"
  using is_space_lower [of c] by auto

lemma trim_padded:
  assumes "\<forall>c\<in>set ws1. is_space c" and "\<forall>c\<in>set ws2. is_space c"
    and "h \<noteq> []" and "\<not> is_space (hd h)" and "\<not> is_space (last h)"
  shows "trim (ws1 @ h @ ws2) = h"
proof -
  have "trimStart (ws1 @ h @ ws2) = h @ ws2"
    using assms(1,3,4) by (cases h) (simp_all add: trimStart_def dropWhile_append1 dropWhile_append2)
  moreover have "trimEnd (h @ ws2) = h"
  proof -
    have "dropWhile is_space (rev ws2 @ rev h) = dropWhile is_space (rev h)"
      using assms(2) by (intro dropWhile_append2) simp
    also have "\<dots> = rev h"
      using assms(3,5) by (cases h rule: rev_cases) simp_all
    finally have "dropWhile is_space (rev ws2 @ rev h) = rev h" .
    then show ?thesis by (simp add: trimEnd_def)
  qed
  ultimately show ?thesis by (simp add: trim_def)
qed

lemma padded_header_line:
  assumes "\<forall>c\<in>set ws1. is_space c \<and> c \<noteq> 10" and "\<forall>c\<in>set ws2. is_space c \<and> c \<noteq> 10"
    and "map ascii_lower h \<in>
      {js ''args:'', js ''arg:'', js ''returns:'', js ''return:'', js ''raises:'', js ''raise:''}"
  shows "trim (ws1 @ h @ ws2) = h \<and> 10 \<notin> set (ws1 @ h @ ws2)"
proof -
  let ?w = "map ascii_lower h"
  from assms(3) have w: "?w \<noteq> [] \<and> \<not> is_space (hd ?w) \<and> \<not> is_space (last ?w) \<and> 10 \<notin> set ?w"
    by (auto simp: js_def is_space_def)
  then have ne: "h \<noteq> []" by auto
  from w ne have "\<not> is_space (hd h)" "\<not> is_space (last h)"
    using is_space_lower [of "hd h"] is_space_lower [of "last h"]
    by (auto simp: hd_map last_map)
  with ne assms(1,2) have "trim (ws1 @ h @ ws2) = h"
    by (intro trim_padded) auto
  moreover have "10 \<notin> set h"
  proof
    assume "10 \<in> set h"
    then have "ascii_lower 10 \<in> set ?w" by simp
    with w show False by (simp add: ascii_lower_def)
  qed
  ultimately show ?thesis using assms(1,2) by auto
qed


lemma header_line_appended:
  assumes "10 \<notin> set raw" and "is_header (trim raw)"
  shows "snd (scan (doc @ 10 # raw)) = snd (scan doc)"
    and "parseDocstring (doc @ 10 # raw) = parseDocstring doc"
proof -
  obtain c0 s0 where s: "scan doc = (c0, s0)" by (cases "scan doc")
  from assms(2) show "snd (scan (doc @ 10 # raw)) = snd (scan doc)"
    by (auto simp: scan_snoc_line [OF assms(1)] s is_header_def)
  then show "parseDocstring (doc @ 10 # raw) = parseDocstring doc"
    by (rule parseDocstring_cong)
qed

lemma args_line_appended:
  assumes "10 \<notin> set raw" and "re_args (trim raw)"
  shows "scan (doc @ 10 # raw) = (Arguments, snd (scan doc))"
    and "scan raw = (Arguments, empty_sections)"
proof -
  obtain c0 s0 where s: "scan doc = (c0, s0)" by (cases "scan doc")
  from assms(2) show "scan (doc @ 10 # raw) = (Arguments, snd (scan doc))"
    by (simp add: scan_snoc_line [OF assms(1)] s)
  from assms(2) show "scan raw = (Arguments, empty_sections)"
    by (simp add: scan_single_line [OF assms(1)])
qed

lemma returns_line_appended:
  assumes "10 \<notin> set raw" and "re_returns (trim raw)"
  shows "scan (doc @ 10 # raw) = (Returns, snd (scan doc))"
    and "scan raw = (Returns, empty_sections)"
proof -
  obtain c0 s0 where s: "scan doc = (c0, s0)" by (cases "scan doc")
  from assms(2) have n: "\<not> re_args (trim raw)"
    using headers_exclusive(1) [of "trim raw"] by blast
  from assms(2) n show "scan (doc @ 10 # raw) = (Returns, snd (scan doc))"
    by (simp add: scan_snoc_line [OF assms(1)] s)
  from assms(2) n show "scan raw = (Returns, empty_sections)"
    by (simp add: scan_single_line [OF assms(1)])
qed

lemma raises_line_appended:
  assumes "10 \<notin> set raw" and "re_raises (trim raw)"
  shows "scan (doc @ 10 # raw) = (Raises, snd (scan doc))"
    and "scan raw = (Raises, empty_sections)"
proof -
  obtain c0 s0 where s: "scan doc = (c0, s0)" by (cases "scan doc")
  from assms(2) have n: "\<not> re_args (trim raw)" "\<not> re_returns (trim raw)"
    using headers_exclusive(2,3) [of "trim raw"] by blast+
  from assms(2) n show "scan (doc @ 10 # raw) = (Raises, snd (scan doc))"
    by (simp add: scan_snoc_line [OF assms(1)] s)
  from assms(2) n show "scan raw = (Raises, empty_sections)"
    by (simp add: scan_single_line [OF assms(1)])
qed

lemma plain_line_appended:
  assumes "10 \<notin> set raw" and "\<not> is_header (trim raw)"
  shows "fst (scan (doc @ 10 # raw)) = fst (scan doc)"
proof -
  obtain c0 s0 where s: "scan doc = (c0, s0)" by (cases "scan doc")
  from assms(2) show ?thesis
    by (simp add: scan_snoc_line [OF assms(1)] s scan_line_plain del: scan_line.simps)
qed

section \<open>Properties of the parser\<close>

text \<open>
  C2, as the code has it.  When no line of the docstring is a section header after
  trimming, the arguments are empty, and so are the returns and raises texts; the
  description is made of the lines of the docstring, each one trimmed at both ends, joined
  by line feeds, with the white space at the end of the whole removed.  White space at the
  ends of inner lines is therefore removed, and blank lines at the start stay as leading
  line feeds.
\<close>

theorem parse_without_headers:
  assumes "\<forall>l\<in>set (split_on 10 s). \<not> is_header (trim l)"
  shows "arguments (parseDocstring s) = [] \<and>
         description (parseDocstring s) = trimEnd (join_lines (map trim (split_on 10 s))) \<and>
         returns (parseDocstring s) = [] \<and> raises (parseDocstring s) = []"
proof -
  let ?ls = "map trim (split_on 10 s)"
  have "\<forall>l\<in>set ?ls. \<not> is_header l"
    using assms by simp
  then have "scan s =
      (Description, empty_sections\<lparr>description := concat (map (\<lambda>l. l @ [10]) ?ls)\<rparr>)"
    unfolding scan_def doc_lines_def
    by (simp add: scan_description empty_sections_def)
  moreover have "concat (map (\<lambda>l. l @ [10]) ?ls) = join_lines ?ls @ [10]"
    by (rule concat_terminated) (simp add: split_on_not_Nil)
  ultimately show ?thesis
    by (simp add: parseDocstring_def empty_sections_def trimEnd_snoc_space is_space_newline
        trimEnd_def)
qed

theorem parse_without_headers_witness:
  "split_on 10 (js ''  one  \<newline>\<newline> two\<newline>  '') = [js ''  one  '', [], js '' two'', js ''  ''] \<and>
   description (parseDocstring (js ''  one  \<newline>\<newline> two\<newline>  '')) = js ''one\<newline>\<newline>two'' \<and>
   arguments (parseDocstring (js ''  one  \<newline>\<newline> two\<newline>  '')) = []"
proof -
  have h: "\<forall>l\<in>set (split_on 10 (js ''  one  \<newline>\<newline> two\<newline>  '')). \<not> is_header (trim l)"
    by (simp add: eval_defs)
  have "trimEnd (join_lines (map trim (split_on 10 (js ''  one  \<newline>\<newline> two\<newline>  '')))) = js ''one\<newline>\<newline>two''"
    by (simp add: eval_defs)
  moreover have "split_on 10 (js ''  one  \<newline>\<newline> two\<newline>  '') = [js ''  one  '', [], js '' two'', js ''  '']"
    by (simp add: js_def)
  ultimately show ?thesis
    using parse_without_headers [OF h] by simp
qed

text \<open>
  The description is not the docstring trimmed as a whole: the blank after \<^verbatim>\<open>a\<close> on the
  first of two lines is removed although it is inside the docstring.
\<close>

theorem parse_trims_interior_lines:
  "doc_lines (js ''a \<newline>b'') = [js ''a'', js ''b''] \<and>
   \<not> is_header (js ''a'') \<and> \<not> is_header (js ''b'') \<and>
   arguments (parseDocstring (js ''a \<newline>b'')) = [] \<and>
   description (parseDocstring (js ''a \<newline>b'')) = js ''a\<newline>b'' \<and>
   trim (js ''a \<newline>b'') = js ''a \<newline>b'' \<and>
   description (parseDocstring (js ''a \<newline>b'')) \<noteq> trim (js ''a \<newline>b'')"
  by (simp add: eval_defs)

lemma parse_keeps_leading_blank_line:
  "description (parseDocstring (js ''\<newline>foo'')) = js ''\<newline>foo'' \<and> trim (js ''\<newline>foo'') = js ''foo''"
  by (simp add: eval_defs)

text \<open>
  C4, as the code has it.  When the docstring has exactly one arguments header
  (\<^verbatim>\<open>Args:\<close> or \<^verbatim>\<open>Arg:\<close> in any letter case), followed by lines that are not headers up to
  the next header or the end of the input, the arguments are those of these lines that
  are not blank, each trimmed, in their order: as many entries as there are such lines,
  the i-th entry being the i-th of them trimmed.
\<close>

theorem arguments_of_single_section:
  assumes "split_on 10 s = pre @ h # body @ rest"
    and "\<forall>l\<in>set pre. \<not> re_args (trim l)"
    and "re_args (trim h)"
    and "\<forall>l\<in>set body. \<not> is_header (trim l)"
    and "rest = [] \<or> is_header (trim (hd rest))"
    and "\<forall>l\<in>set rest. \<not> re_args (trim l)"
  shows "arguments (parseDocstring s) = map trim (filter (\<lambda>l. trim l \<noteq> []) body) \<and>
         length (arguments (parseDocstring s)) = length (filter (\<lambda>l. trim l \<noteq> []) body) \<and>
         (\<forall>i < length (filter (\<lambda>l. trim l \<noteq> []) body).
            arguments (parseDocstring s) ! i = trim (filter (\<lambda>l. trim l \<noteq> []) body ! i))"
proof -
  obtain c1 s1 where pre: "foldl scan_line (Description, empty_sections) (map trim pre) = (c1, s1)"
    by (cases "foldl scan_line (Description, empty_sections) (map trim pre)")
  have "arguments s1 = []"
    using scan_outside_arguments [of Description "map trim pre" empty_sections] assms(2) pre
    by (simp add: empty_sections_def)
  have header: "scan_line (c1, s1) (trim h) = (Arguments, s1)"
    using assms(3) by simp
  have body: "foldl scan_line (Arguments, s1) (map trim body) =
      (Arguments, s1\<lparr>arguments := arguments s1 @ filter (\<lambda>l. l \<noteq> []) (map trim body)\<rparr>)"
    using assms(4) by (intro scan_arguments_body) simp
  have rest: "map trim rest = [] \<or> is_header (hd (map trim rest))"
    using assms(5) by (cases rest) simp_all
  have "arguments (snd (scan s)) = filter (\<lambda>l. l \<noteq> []) (map trim body)"
    unfolding scan_def doc_lines_def assms(1)
    using scan_after_arguments [OF rest, of "s1\<lparr>arguments := arguments s1 @ filter (\<lambda>l. l \<noteq> []) (map trim body)\<rparr>"]
      assms(6) \<open>arguments s1 = []\<close>
    by (simp add: pre header body del: scan_line.simps)
  then have "arguments (parseDocstring s) = map trim (filter (\<lambda>l. trim l \<noteq> []) body)"
    by (simp add: parseDocstring_def Let_def filter_map comp_def)
  then show ?thesis by simp
qed

theorem arguments_of_single_section_witness:
  "split_on 10 (js ''Sum.\<newline>Args:\<newline>  a: x\<newline>\<newline>  b: y\<newline>Returns:\<newline>  r'') =
     [js ''Sum.''] @ js ''Args:'' # [js ''  a: x'', [], js ''  b: y''] @ [js ''Returns:'', js ''  r''] \<and>
   arguments (parseDocstring (js ''Sum.\<newline>Args:\<newline>  a: x\<newline>\<newline>  b: y\<newline>Returns:\<newline>  r'')) =
     [js ''a: x'', js ''b: y'']"
proof -
  let ?s = "js ''Sum.\<newline>Args:\<newline>  a: x\<newline>\<newline>  b: y\<newline>Returns:\<newline>  r''"
  let ?pre = "[js ''Sum.'']" and ?h = "js ''Args:''"
  let ?body = "[js ''  a: x'', [], js ''  b: y'']" and ?rest = "[js ''Returns:'', js ''  r'']"
  have h1: "split_on 10 ?s = ?pre @ ?h # ?body @ ?rest"
    by (simp add: js_def)
  have h2: "\<forall>l\<in>set ?pre. \<not> re_args (trim l)"
    by (simp add: eval_defs)
  have h3: "re_args (trim ?h)"
    by (simp add: eval_defs)
  have h4: "\<forall>l\<in>set ?body. \<not> is_header (trim l)"
    by (simp add: eval_defs)
  have h5: "?rest = [] \<or> is_header (trim (hd ?rest))"
    by (simp add: eval_defs)
  have h6: "\<forall>l\<in>set ?rest. \<not> re_args (trim l)"
    by (simp add: eval_defs)
  have "map trim (filter (\<lambda>l. trim l \<noteq> []) ?body) = [js ''a: x'', js ''b: y'']"
    by (simp add: eval_defs)
  with arguments_of_single_section [OF h1 h2 h3 h4 h5 h6] h1 show ?thesis
    by simp
qed

text \<open>
  With a second arguments header further down, the lines after it are collected as well:
  the first header is followed by one line before the next header, and there are two
  entries.
\<close>

theorem arguments_of_two_sections:
  "split_on 10 (js ''Args:\<newline>a\<newline>Returns:\<newline>r\<newline>Args:\<newline>b'') =
     [js ''Args:'', js ''a'', js ''Returns:'', js ''r'', js ''Args:'', js ''b''] \<and>
   re_args (trim (js ''Args:'')) \<and> \<not> is_header (trim (js ''a'')) \<and> trim (js ''a'') \<noteq> [] \<and>
   is_header (trim (js ''Returns:'')) \<and>
   arguments (parseDocstring (js ''Args:\<newline>a\<newline>Returns:\<newline>r\<newline>Args:\<newline>b'')) = [js ''a'', js ''b''] \<and>
   length (arguments (parseDocstring (js ''Args:\<newline>a\<newline>Returns:\<newline>r\<newline>Args:\<newline>b''))) \<noteq> 1"
  by (simp add: eval_defs)

text \<open>
  C6.  A line whose trimmed content is \<^verbatim>\<open>Args:\<close> or \<^verbatim>\<open>Arg:\<close> in any letter case makes
  arguments the current section and leaves the record as it was; likewise for
  \<^verbatim>\<open>Returns:\<close>, \<^verbatim>\<open>Return:\<close> and \<^verbatim>\<open>Raises:\<close>, \<^verbatim>\<open>Raise:\<close>.  Any other line is no header and
  leaves the current section as it was.  \<^verbatim>\<open>"Returns:\nfoo"\<close> and \<^verbatim>\<open>"RETURNS:\nfoo"\<close> both give
  the returns text \<^verbatim>\<open>"foo"\<close>.

  The parser itself tests the trimmed line: when a docstring is extended by a line made of
  a header word in any letter case with white space (other than a line feed) before and
  after it, the scan ends in the section of that header with the record it had before the
  line, so the parse of the extended docstring is the parse of the docstring; the scan of
  a docstring that is such a line alone ends in that section with the empty record.  A further line that is no header
  leaves the section in which the scan ends as it was.  White space around a header and
  its letter case do not matter in \<^verbatim>\<open>"Sum.\n  aRgS: \n  x: one"\<close>, and the lines
  \<^verbatim>\<open>see Args:\<close> and \<^verbatim>\<open>Args: x\<close>, which only contain a header word, are description text.
\<close>

theorem header_recognition:
  "(map ascii_lower (trim raw) \<in> {js ''args:'', js ''arg:''} \<longrightarrow>
      scan_line (cur, secs) (trim raw) = (Arguments, secs)) \<and>
   (map ascii_lower (trim raw) \<in> {js ''returns:'', js ''return:''} \<longrightarrow>
      scan_line (cur, secs) (trim raw) = (Returns, secs)) \<and>
   (map ascii_lower (trim raw) \<in> {js ''raises:'', js ''raise:''} \<longrightarrow>
      scan_line (cur, secs) (trim raw) = (Raises, secs)) \<and>
   (map ascii_lower (trim raw) \<notin>
      {js ''args:'', js ''arg:'', js ''returns:'', js ''return:'', js ''raises:'', js ''raise:''} \<longrightarrow>
      \<not> is_header (trim raw) \<and> fst (scan_line (cur, secs) (trim raw)) = cur) \<and>
   returns (parseDocstring (js ''Returns:\<newline>foo'')) = js ''foo'' \<and>
   returns (parseDocstring (js ''RETURNS:\<newline>foo'')) = js ''foo'' \<and>
   ((\<forall>c\<in>set before. is_space c \<and> c \<noteq> 10) \<and> (\<forall>c\<in>set after. is_space c \<and> c \<noteq> 10) \<and>
    map ascii_lower h \<in> {js ''args:'', js ''arg:''} \<longrightarrow>
      scan (doc @ 10 # before @ h @ after) = (Arguments, snd (scan doc)) \<and>
      scan (before @ h @ after) = (Arguments, empty_sections) \<and>
      parseDocstring (doc @ 10 # before @ h @ after) = parseDocstring doc) \<and>
   ((\<forall>c\<in>set before. is_space c \<and> c \<noteq> 10) \<and> (\<forall>c\<in>set after. is_space c \<and> c \<noteq> 10) \<and>
    map ascii_lower h \<in> {js ''returns:'', js ''return:''} \<longrightarrow>
      scan (doc @ 10 # before @ h @ after) = (Returns, snd (scan doc)) \<and>
      scan (before @ h @ after) = (Returns, empty_sections) \<and>
      parseDocstring (doc @ 10 # before @ h @ after) = parseDocstring doc) \<and>
   ((\<forall>c\<in>set before. is_space c \<and> c \<noteq> 10) \<and> (\<forall>c\<in>set after. is_space c \<and> c \<noteq> 10) \<and>
    map ascii_lower h \<in> {js ''raises:'', js ''raise:''} \<longrightarrow>
      scan (doc @ 10 # before @ h @ after) = (Raises, snd (scan doc)) \<and>
      scan (before @ h @ after) = (Raises, empty_sections) \<and>
      parseDocstring (doc @ 10 # before @ h @ after) = parseDocstring doc) \<and>
   (10 \<notin> set raw \<and> map ascii_lower (trim raw) \<notin>
      {js ''args:'', js ''arg:'', js ''returns:'', js ''return:'', js ''raises:'', js ''raise:''} \<longrightarrow>
      fst (scan (doc @ 10 # raw)) = fst (scan doc)) \<and>
   parseDocstring (js ''Sum.\<newline>  aRgS: \<newline>  x: one'') =
     \<lparr>description = js ''Sum.'', arguments = [js ''x: one''], returns = [], raises = []\<rparr> \<and>
   returns (parseDocstring (js ''  rEtUrN:  \<newline>  foo'')) = js ''foo'' \<and>
   parseDocstring (js ''see Args:\<newline>Args: x'') =
     \<lparr>description = js ''see Args:\<newline>Args: x'', arguments = [], returns = [], raises = []\<rparr>"
proof -
  let ?l = "trim raw"
  let ?p1 = "\<forall>c\<in>set before. is_space c \<and> c \<noteq> 10"
  let ?p2 = "\<forall>c\<in>set after. is_space c \<and> c \<noteq> 10"
  let ?line = "before @ h @ after"
  have a: "map ascii_lower ?l \<in> {js ''args:'', js ''arg:''} \<longrightarrow>
      scan_line (cur, secs) ?l = (Arguments, secs)"
    by (auto simp: re_args_lower)
  have b: "map ascii_lower ?l \<in> {js ''returns:'', js ''return:''} \<longrightarrow>
      scan_line (cur, secs) ?l = (Returns, secs)"
    using headers_exclusive(1) [of ?l] by (auto simp: re_returns_lower)
  have c: "map ascii_lower ?l \<in> {js ''raises:'', js ''raise:''} \<longrightarrow>
      scan_line (cur, secs) ?l = (Raises, secs)"
    using headers_exclusive(2,3) [of ?l] by (auto simp: re_raises_lower)
  have plain: "\<not> is_header ?l"
    if "map ascii_lower ?l \<notin>
      {js ''args:'', js ''arg:'', js ''returns:'', js ''return:'', js ''raises:'', js ''raise:''}"
    using that by (simp add: is_header_def re_args_lower re_returns_lower re_raises_lower)
  have d: "map ascii_lower ?l \<notin>
      {js ''args:'', js ''arg:'', js ''returns:'', js ''return:'', js ''raises:'', js ''raise:''} \<longrightarrow>
      \<not> is_header ?l \<and> fst (scan_line (cur, secs) ?l) = cur"
    using plain by (simp add: scan_line_plain del: scan_line.simps)
  have e: "returns (parseDocstring (js ''Returns:\<newline>foo'')) = js ''foo''"
    by (simp add: eval_defs)
  have f: "returns (parseDocstring (js ''RETURNS:\<newline>foo'')) = js ''foo''"
    by (simp add: eval_defs)
  have g: "?p1 \<and> ?p2 \<and> map ascii_lower h \<in> {js ''args:'', js ''arg:''} \<longrightarrow>
      scan (doc @ 10 # ?line) = (Arguments, snd (scan doc)) \<and>
      scan ?line = (Arguments, empty_sections) \<and>
      parseDocstring (doc @ 10 # ?line) = parseDocstring doc"
  proof
    assume asm: "?p1 \<and> ?p2 \<and> map ascii_lower h \<in> {js ''args:'', js ''arg:''}"
    then have "trim ?line = h \<and> 10 \<notin> set ?line"
      by (intro padded_header_line) auto
    moreover from asm have "re_args h"
      by (auto simp: re_args_lower)
    ultimately have nl: "10 \<notin> set ?line" and hd: "re_args (trim ?line)"
      by simp_all
    from hd have "is_header (trim ?line)"
      by (simp add: is_header_def)
    with nl hd show "scan (doc @ 10 # ?line) = (Arguments, snd (scan doc)) \<and>
      scan ?line = (Arguments, empty_sections) \<and>
      parseDocstring (doc @ 10 # ?line) = parseDocstring doc"
      using args_line_appended(1) [of ?line doc] args_line_appended(2) [of ?line]
        header_line_appended(2) [of ?line doc] by blast
  qed
  have h: "?p1 \<and> ?p2 \<and> map ascii_lower h \<in> {js ''returns:'', js ''return:''} \<longrightarrow>
      scan (doc @ 10 # ?line) = (Returns, snd (scan doc)) \<and>
      scan ?line = (Returns, empty_sections) \<and>
      parseDocstring (doc @ 10 # ?line) = parseDocstring doc"
  proof
    assume asm: "?p1 \<and> ?p2 \<and> map ascii_lower h \<in> {js ''returns:'', js ''return:''}"
    then have "trim ?line = h \<and> 10 \<notin> set ?line"
      by (intro padded_header_line) auto
    moreover from asm have "re_returns h"
      by (auto simp: re_returns_lower)
    ultimately have nl: "10 \<notin> set ?line" and hd: "re_returns (trim ?line)"
      by simp_all
    from hd have "is_header (trim ?line)"
      by (simp add: is_header_def)
    with nl hd show "scan (doc @ 10 # ?line) = (Returns, snd (scan doc)) \<and>
      scan ?line = (Returns, empty_sections) \<and>
      parseDocstring (doc @ 10 # ?line) = parseDocstring doc"
      using returns_line_appended(1) [of ?line doc] returns_line_appended(2) [of ?line]
        header_line_appended(2) [of ?line doc] by blast
  qed
  have i: "?p1 \<and> ?p2 \<and> map ascii_lower h \<in> {js ''raises:'', js ''raise:''} \<longrightarrow>
      scan (doc @ 10 # ?line) = (Raises, snd (scan doc)) \<and>
      scan ?line = (Raises, empty_sections) \<and>
      parseDocstring (doc @ 10 # ?line) = parseDocstring doc"
  proof
    assume asm: "?p1 \<and> ?p2 \<and> map ascii_lower h \<in> {js ''raises:'', js ''raise:''}"
    then have "trim ?line = h \<and> 10 \<notin> set ?line"
      by (intro padded_header_line) auto
    moreover from asm have "re_raises h"
      by (auto simp: re_raises_lower)
    ultimately have nl: "10 \<notin> set ?line" and hd: "re_raises (trim ?line)"
      by simp_all
    from hd have "is_header (trim ?line)"
      by (simp add: is_header_def)
    with nl hd show "scan (doc @ 10 # ?line) = (Raises, snd (scan doc)) \<and>
      scan ?line = (Raises, empty_sections) \<and>
      parseDocstring (doc @ 10 # ?line) = parseDocstring doc"
      using raises_line_appended(1) [of ?line doc] raises_line_appended(2) [of ?line]
        header_line_appended(2) [of ?line doc] by blast
  qed
  have j: "10 \<notin> set raw \<and> map ascii_lower ?l \<notin>
      {js ''args:'', js ''arg:'', js ''returns:'', js ''return:'', js ''raises:'', js ''raise:''} \<longrightarrow>
      fst (scan (doc @ 10 # raw)) = fst (scan doc)"
    using plain plain_line_appended [of raw doc] by blast
  have k: "parseDocstring (js ''Sum.\<newline>  aRgS: \<newline>  x: one'') =
     \<lparr>description = js ''Sum.'', arguments = [js ''x: one''], returns = [], raises = []\<rparr>"
    by (simp add: eval_defs)
  have l: "returns (parseDocstring (js ''  rEtUrN:  \<newline>  foo'')) = js ''foo''"
    by (simp add: eval_defs)
  have m: "parseDocstring (js ''see Args:\<newline>Args: x'') =
     \<lparr>description = js ''see Args:\<newline>Args: x'', arguments = [], returns = [], raises = []\<rparr>"
    by (simp add: eval_defs)
  show ?thesis
    by (intro conjI a b c d e f g h i j k l m)
qed

theorem header_recognition_witness:
  "scan_line (Description, empty_sections) (trim (js ''  aRgS: '')) = (Arguments, empty_sections) \<and>
   scan_line (Arguments, empty_sections) (trim (js ''RETURN:'')) = (Returns, empty_sections) \<and>
   scan_line (Returns, empty_sections) (trim (js ''raises:'')) = (Raises, empty_sections) \<and>
   \<not> is_header (trim (js ''Args: x'')) \<and>
   fst (scan_line (Returns, empty_sections) (trim (js ''Args: x''))) = Returns \<and>
   scan (js ''Sum.\<newline>  aRgS: '') = (Arguments, snd (scan (js ''Sum.''))) \<and>
   parseDocstring (js ''Sum.\<newline>  aRgS: '') = parseDocstring (js ''Sum.'') \<and>
   scan (js ''Sum.\<newline>Args:\<newline>x\<newline>  RETURN:'') = (Returns, snd (scan (js ''Sum.\<newline>Args:\<newline>x''))) \<and>
   scan (js '' Raises:  '') = (Raises, empty_sections) \<and>
   fst (scan (js ''Returns:\<newline>Args: x'')) = fst (scan (js ''Returns:'')) \<and>
   fst (scan (js ''Returns:'')) = Returns"
proof -
  have 1: "map ascii_lower (trim (js ''  aRgS: '')) \<in> {js ''args:'', js ''arg:''}"
    by (simp add: eval_defs ascii_lower_def)
  have 2: "map ascii_lower (trim (js ''RETURN:'')) \<in> {js ''returns:'', js ''return:''}"
    by (simp add: eval_defs ascii_lower_def)
  have 3: "map ascii_lower (trim (js ''raises:'')) \<in> {js ''raises:'', js ''raise:''}"
    by (simp add: eval_defs ascii_lower_def)
  have 4: "map ascii_lower (trim (js ''Args: x'')) \<notin>
      {js ''args:'', js ''arg:'', js ''returns:'', js ''return:'', js ''raises:'', js ''raise:''}"
    by (simp add: eval_defs ascii_lower_def)
  have 5: "(\<forall>c\<in>set (js ''  ''). is_space c \<and> c \<noteq> 10) \<and> (\<forall>c\<in>set (js '' ''). is_space c \<and> c \<noteq> 10) \<and>
      map ascii_lower (js ''aRgS:'') \<in> {js ''args:'', js ''arg:''}"
    by (simp add: js_def is_space_def ascii_lower_def)
  have 6: "(\<forall>c\<in>set (js ''  ''). is_space c \<and> c \<noteq> 10) \<and> (\<forall>c\<in>set []. is_space c \<and> c \<noteq> 10) \<and>
      map ascii_lower (js ''RETURN:'') \<in> {js ''returns:'', js ''return:''}"
    by (simp add: js_def is_space_def ascii_lower_def)
  have 7: "(\<forall>c\<in>set (js '' ''). is_space c \<and> c \<noteq> 10) \<and> (\<forall>c\<in>set (js ''  ''). is_space c \<and> c \<noteq> 10) \<and>
      map ascii_lower (js ''Raises:'') \<in> {js ''raises:'', js ''raise:''}"
    by (simp add: js_def is_space_def ascii_lower_def)
  have 8: "10 \<notin> set (js ''Args: x'')"
    by (simp add: js_def)
  from header_recognition [where raw = "js ''  aRgS: ''" and cur = Description and secs = empty_sections] 1
  have w1: "scan_line (Description, empty_sections) (trim (js ''  aRgS: '')) = (Arguments, empty_sections)"
    by blast
  from header_recognition [where raw = "js ''RETURN:''" and cur = Arguments and secs = empty_sections] 2
  have w2: "scan_line (Arguments, empty_sections) (trim (js ''RETURN:'')) = (Returns, empty_sections)"
    by blast
  from header_recognition [where raw = "js ''raises:''" and cur = Returns and secs = empty_sections] 3
  have w3: "scan_line (Returns, empty_sections) (trim (js ''raises:'')) = (Raises, empty_sections)"
    by blast
  from header_recognition [where raw = "js ''Args: x''" and cur = Returns and secs = empty_sections
      and doc = "js ''Returns:''"] 4 8
  have w4: "\<not> is_header (trim (js ''Args: x'')) \<and>
      fst (scan_line (Returns, empty_sections) (trim (js ''Args: x''))) = Returns \<and>
      fst (scan (js ''Returns:'' @ 10 # js ''Args: x'')) = fst (scan (js ''Returns:''))"
    by blast
  from header_recognition [where before = "js ''  ''" and h = "js ''aRgS:''" and after = "js '' ''"
      and doc = "js ''Sum.''"] 5
  have w5: "scan (js ''Sum.'' @ 10 # js ''  '' @ js ''aRgS:'' @ js '' '') = (Arguments, snd (scan (js ''Sum.''))) \<and>
      parseDocstring (js ''Sum.'' @ 10 # js ''  '' @ js ''aRgS:'' @ js '' '') = parseDocstring (js ''Sum.'')"
    by blast
  from header_recognition [where before = "js ''  ''" and h = "js ''RETURN:''" and after = "[]"
      and doc = "js ''Sum.\<newline>Args:\<newline>x''"] 6
  have w6: "scan (js ''Sum.\<newline>Args:\<newline>x'' @ 10 # js ''  '' @ js ''RETURN:'' @ []) =
      (Returns, snd (scan (js ''Sum.\<newline>Args:\<newline>x'')))"
    by blast
  from header_recognition [where before = "js '' ''" and h = "js ''Raises:''" and after = "js ''  ''"] 7
  have w7: "scan (js '' '' @ js ''Raises:'' @ js ''  '') = (Raises, empty_sections)"
    by blast
  have w8: "fst (scan (js ''Returns:'')) = Returns"
    by (simp add: eval_defs)
  have j1: "js ''Sum.'' @ 10 # js ''  '' @ js ''aRgS:'' @ js '' '' = js ''Sum.\<newline>  aRgS: ''"
    by (simp add: js_def)
  have j2: "js ''Sum.\<newline>Args:\<newline>x'' @ 10 # js ''  '' @ js ''RETURN:'' @ [] = js ''Sum.\<newline>Args:\<newline>x\<newline>  RETURN:''"
    by (simp add: js_def)
  have j3: "js '' '' @ js ''Raises:'' @ js ''  '' = js '' Raises:  ''"
    by (simp add: js_def)
  have j4: "js ''Returns:'' @ 10 # js ''Args: x'' = js ''Returns:\<newline>Args: x''"
    by (simp add: js_def)
  from w1 w2 w3 w4 w5 w6 w7 w8 show ?thesis
    unfolding j1 j2 j3 j4 by blast
qed



section \<open>Properties of the display\<close>

text \<open>
  C5.  For an absent or empty docstring the component has no parsed record (the parser is
  not called, so there is no empty record either) and shows the fallback paragraph.
\<close>

theorem empty_docstring_not_parsed:
  "doc_of None = None \<and> doc_of (Some []) = None \<and>
   doc_of (Some []) \<noteq> Some empty_sections \<and>
   PyFunction None = Fallback (js ''No documentation available.'') \<and>
   PyFunction (Some []) = Fallback (js ''No documentation available.'')"
  by (simp add: doc_of_def PyFunction_def)

text \<open>Called on the empty string all the same, the parser would return the empty record.\<close>

lemma parseDocstring_empty: "parseDocstring [] = empty_sections"
  by (simp add: eval_defs)

text \<open>
  C3.  The display cuts an argument line, and a raises line, at every colon and keeps the
  first two pieces: on a line with a second colon the description shown ends before that
  colon, and the text after it is not shown.
\<close>

theorem description_cut_at_second_colon:
  "name_description (js ''opts: a map of key: value'') =
     (Some (js ''opts''), Some (js ''a map of key'')) \<and>
   snd (name_description (js ''opts: a map of key: value'')) \<noteq> Some (js ''a map of key: value'') \<and>
   PyFunction (Some (js ''Args:\<newline>opts: a map of key: value\<newline>Raises:\<newline>KeyError: bad key: k'')) =
     Documentation [[]]
       (Some [(Some (js ''opts''), Some (js ''a map of key''))])
       None
       (Some [(Some (js ''KeyError''), Some (js ''bad key''))])"
  by (simp add: name_description_def PyFunction_def doc_of_def eval_defs)

section \<open>Facts about the grouping\<close>

lemma uncategorized_not_inherited: "js ''uncategorized'' \<notin> set Object_prototype_keys"
  by (simp add: Object_prototype_keys_def js_def)

lemma reducer_Inr:
  assumes "reducer acc p = Inr acc'"
  shows "acc' = AList.update (category_of p) (group_of acc (category_of p) @ [p]) acc"
proof (cases "map_of acc (category_of p)")
  case None
  with assms show ?thesis
    by (cases "category_of p \<in> set Object_prototype_keys")
      (simp_all add: reducer_def get_property_def group_of_def update_conv')
next
  case (Some ps)
  with assms show ?thesis
    by (simp add: reducer_def get_property_def group_of_def)
qed

lemma reducer_succeeds:
  assumes "category_of p \<notin> set Object_prototype_keys"
  shows "\<exists>acc'. reducer acc p = Inr acc'"
proof (cases "map_of acc (category_of p)")
  case None
  with assms show ?thesis
    by (simp add: reducer_def get_property_def update_conv')
next
  case (Some ps)
  then show ?thesis
    by (simp add: reducer_def get_property_def)
qed

lemma reducer_fails:
  assumes "category_of p \<in> set Object_prototype_keys" and "category_of p \<notin> fst ` set acc"
  shows "reducer acc p = Inl TypeError"
proof -
  from assms(2) have "map_of acc (category_of p) = None"
    by (simp add: map_of_eq_None_iff)
  with assms(1) show ?thesis
    by (simp add: reducer_def get_property_def)
qed

lemma group_of_update:
  "group_of (AList.update k v al) k' = (if k' = k then v else group_of al k')"
  by (simp add: group_of_def update_conv')

lemma mset_pages_update:
  "mset (concat (map snd (AList.update k (group_of al k @ [p]) al))) =
   add_mset p (mset (concat (map snd al)))"
proof (induction al)
  case Nil
  show ?case by (simp add: group_of_def)
next
  case (Cons e al)
  obtain k' ps where e: "e = (k', ps)" by (cases e)
  show ?case
  proof (cases "k' = k")
    case True
    with e show ?thesis by (simp add: group_of_def)
  next
    case False
    with e have "group_of (e # al) k = group_of al k"
      by (simp add: group_of_def)
    with False e Cons.IH show ?thesis by simp
  qed
qed

lemma reduce_Inr:
  "reduce acc P = Inr m \<Longrightarrow>
   (\<forall>k. group_of m k = group_of acc k @ filter (\<lambda>p. category_of p = k) P) \<and>
   fst ` set m = fst ` set acc \<union> category_of ` set P \<and>
   (distinct (map fst acc) \<longrightarrow> distinct (map fst m)) \<and>
   mset (concat (map snd m)) = mset (concat (map snd acc)) + mset P"
proof (induction P arbitrary: acc)
  case Nil
  then show ?case by simp
next
  case (Cons p P)
  from Cons.prems obtain acc' where step: "reducer acc p = Inr acc'" and rest: "reduce acc' P = Inr m"
    by (auto split: sum.splits)
  let ?k = "category_of p"
  have acc': "acc' = AList.update ?k (group_of acc ?k @ [p]) acc"
    using step by (rule reducer_Inr)
  note IH = Cons.IH [OF rest]
  have "\<forall>k. group_of m k = group_of acc k @ filter (\<lambda>q. category_of q = k) (p # P)"
    using IH by (simp add: acc' group_of_update)
  moreover have "fst ` set m = fst ` set acc \<union> category_of ` set (p # P)"
    using IH by (simp add: acc' dom_update)
  moreover have "distinct (map fst acc) \<longrightarrow> distinct (map fst m)"
    using IH by (simp add: acc' distinct_update)
  moreover have "mset (concat (map snd m)) = mset (concat (map snd acc)) + mset (p # P)"
    using IH by (simp add: acc' mset_pages_update)
  ultimately show ?case by blast
qed

lemma reduce_succeeds:
  "\<forall>p\<in>set P. category_of p \<notin> set Object_prototype_keys \<Longrightarrow> \<exists>m. reduce acc P = Inr m"
proof (induction P arbitrary: acc)
  case Nil
  show ?case by simp
next
  case (Cons p P)
  then obtain acc' where "reducer acc p = Inr acc'"
    using reducer_succeeds [of p acc] by auto
  with Cons show ?case by simp
qed

lemma reduce_fails:
  "\<exists>p\<in>set P. category_of p \<in> set Object_prototype_keys \<Longrightarrow>
   fst ` set acc \<inter> set Object_prototype_keys = {} \<Longrightarrow> reduce acc P = Inl TypeError"
proof (induction P arbitrary: acc)
  case Nil
  then show ?case by simp
next
  case (Cons p P)
  show ?case
  proof (cases "category_of p \<in> set Object_prototype_keys")
    case True
    with Cons.prems(2) have "category_of p \<notin> fst ` set acc"
      by blast
    with True show ?thesis
      by (simp add: reducer_fails)
  next
    case False
    then obtain acc' where step: "reducer acc p = Inr acc'"
      using reducer_succeeds by blast
    then have "acc' = AList.update (category_of p) (group_of acc (category_of p) @ [p]) acc"
      by (rule reducer_Inr)
    with False Cons.prems(2) have "fst ` set acc' \<inter> set Object_prototype_keys = {}"
      by (simp add: dom_update)
    moreover from False Cons.prems(1) have "\<exists>p\<in>set P. category_of p \<in> set Object_prototype_keys"
      by simp
    ultimately have "reduce acc' P = Inl TypeError"
      by (rule Cons.IH [rotated])
    with step show ?thesis by simp
  qed
qed

text \<open>
  The reduction raises exactly when some page has the name of an inherited property as its
  category.  On every other input it returns a mapping with pairwise different keys, the
  categories of the pages, in which the pages under a key are the pages of that category
  in their order in the input, and all groups together hold each page as often as the input
  does.
\<close>

lemma grouping_fails_iff:
  "postsByCategory P = Inl TypeError \<longleftrightarrow> (\<exists>p\<in>set P. category_of p \<in> set Object_prototype_keys)"
proof
  assume "postsByCategory P = Inl TypeError"
  then show "\<exists>p\<in>set P. category_of p \<in> set Object_prototype_keys"
    using reduce_succeeds [of P "[]"] by (auto simp: postsByCategory_def)
next
  assume "\<exists>p\<in>set P. category_of p \<in> set Object_prototype_keys"
  then show "postsByCategory P = Inl TypeError"
    unfolding postsByCategory_def by (rule reduce_fails) simp
qed

lemma group_of_member:
  "distinct (map fst m) \<Longrightarrow> (k, ps) \<in> set m \<Longrightarrow> group_of m k = ps"
  by (simp add: group_of_def)

lemma grouping_stable_partition:
  assumes "\<forall>p\<in>set P. category_of p \<notin> set Object_prototype_keys"
  shows "\<exists>m. postsByCategory P = Inr m \<and> distinct (map fst m) \<and>
           fst ` set m = category_of ` set P \<and>
           (\<forall>(k, ps)\<in>set m. ps = filter (\<lambda>p. category_of p = k) P) \<and>
           mset (concat (map snd m)) = mset P"
proof -
  from assms obtain m where m: "reduce [] P = Inr m"
    using reduce_succeeds by blast
  note facts = reduce_Inr [OF m]
  have d: "distinct (map fst m)"
    using facts by simp
  have "\<forall>(k, ps)\<in>set m. ps = filter (\<lambda>p. category_of p = k) P"
  proof (clarify)
    fix k ps assume "(k, ps) \<in> set m"
    with d have "group_of m k = ps" by (rule group_of_member)
    with facts show "ps = filter (\<lambda>p. category_of p = k) P"
      by (simp add: group_of_def)
  qed
  with m d facts show ?thesis
    by (simp add: postsByCategory_def)
qed

section \<open>Properties of the grouping\<close>

text \<open>
  C8.  The grouping does not return for every sequence of pages: a page whose first path
  segment is the name of a property that the accumulator inherits, here
  \<^verbatim>\<open>constructor\<close>, makes the reduction raise a TypeError, so no page is grouped.
\<close>

theorem grouping_raises_on_inherited_key:
  "postsByCategory
     [\<lparr>slugs = [js ''types'', js ''mismatch''], data = ()\<rparr>,
      \<lparr>slugs = [js ''constructor'', js ''missing-new''], data = ()\<rparr>]
   = Inl TypeError"
  by (simp add: postsByCategory_def reducer_def Let_def get_property_def category_of_def
      Object_prototype_keys_def js_def)

text \<open>
  C9, as the code has it.  When no page has the name of an inherited property as its
  category, the grouping returns a mapping in which every page of the input is held under
  exactly one key, its category: the first path segment when there is one and it is not
  the empty string, and \<^verbatim>\<open>uncategorized\<close> otherwise.  The empty input gives the empty
  mapping.
\<close>

theorem category_key_of_page:
  assumes "\<forall>q\<in>set P. category_of q \<notin> set Object_prototype_keys"
  shows "(\<exists>m. postsByCategory P = Inr m \<and>
            (\<forall>p\<in>set P. category_of p \<in> fst ` set m \<and>
               (\<forall>(k, ps)\<in>set m. p \<in> set ps \<longleftrightarrow> k = category_of p))) \<and>
         (\<forall>p\<in>set P. category_of p =
            (case slugs p of
               [] \<Rightarrow> js ''uncategorized''
             | s # rest \<Rightarrow> if s = [] then js ''uncategorized'' else s)) \<and>
         postsByCategory ([] :: 'a page list) = Inr []"
proof -
  from grouping_stable_partition [OF assms] obtain m where
    m: "postsByCategory P = Inr m" and keys: "fst ` set m = category_of ` set P" and
    groups: "\<forall>(k, ps)\<in>set m. ps = filter (\<lambda>p. category_of p = k) P"
    by blast
  have "\<forall>p\<in>set P. category_of p \<in> fst ` set m \<and>
      (\<forall>(k, ps)\<in>set m. p \<in> set ps \<longleftrightarrow> k = category_of p)"
    using keys groups by auto
  moreover have "\<forall>p\<in>set P. category_of p =
      (case slugs p of
         [] \<Rightarrow> js ''uncategorized''
       | s # rest \<Rightarrow> if s = [] then js ''uncategorized'' else s)"
    by (simp add: category_of_def split: list.splits)
  moreover have "postsByCategory ([] :: 'a page list) = Inr []"
    by (simp add: postsByCategory_def)
  ultimately show ?thesis
    using m by blast
qed

theorem category_key_of_page_witness:
  "category_of \<lparr>slugs = [js ''types'', js ''mismatch''], data = ()\<rparr> = js ''types'' \<and>
   category_of \<lparr>slugs = [], data = ()\<rparr> = js ''uncategorized'' \<and>
   js ''types'' \<notin> set Object_prototype_keys \<and>
   js ''uncategorized'' \<notin> set Object_prototype_keys \<and>
   (\<exists>m. postsByCategory
          [\<lparr>slugs = [js ''types'', js ''mismatch''], data = ()\<rparr>, \<lparr>slugs = [], data = ()\<rparr>] = Inr m \<and>
        js ''types'' \<in> fst ` set m \<and> js ''uncategorized'' \<in> fst ` set m)"
proof -
  let ?P = "[\<lparr>slugs = [js ''types'', js ''mismatch''], data = ()\<rparr>, \<lparr>slugs = [], data = ()\<rparr>]"
  have h: "\<forall>q\<in>set ?P. category_of q \<notin> set Object_prototype_keys"
    by (simp add: category_of_def Object_prototype_keys_def js_def)
  have c1: "category_of \<lparr>slugs = [js ''types'', js ''mismatch''], data = ()\<rparr> = js ''types''"
    by (simp add: category_of_def js_def)
  have c2: "category_of \<lparr>slugs = [], data = ()\<rparr> = js ''uncategorized''"
    by (simp add: category_of_def)
  have n1: "js ''types'' \<notin> set Object_prototype_keys"
    by (simp add: Object_prototype_keys_def js_def)
  from category_key_of_page [OF h] obtain m where
    "postsByCategory ?P = Inr m" and "\<forall>p\<in>set ?P. category_of p \<in> fst ` set m"
    by blast
  with c1 c2 have "\<exists>m. postsByCategory ?P = Inr m \<and>
      js ''types'' \<in> fst ` set m \<and> js ''uncategorized'' \<in> fst ` set m"
    by auto
  with c1 c2 n1 uncategorized_not_inherited show ?thesis
    by blast
qed

text \<open>
  The key is not always the first segment: a page whose first segment is the empty string
  is held under \<^verbatim>\<open>uncategorized\<close>.
\<close>

theorem empty_segment_is_not_the_key:
  "element (slugs \<lparr>slugs = [[]], data = ()\<rparr>) 0 = Some [] \<and>
   postsByCategory [\<lparr>slugs = [[]], data = ()\<rparr>] =
     Inr [(js ''uncategorized'', [\<lparr>slugs = [[]], data = ()\<rparr>])] \<and>
   js ''uncategorized'' \<noteq> []"
  by (simp add: postsByCategory_def reducer_def Let_def get_property_def category_of_def
      Object_prototype_keys_def js_def)



end
